theory Spec2Isabelle
  imports Main "HOL-Library.Char_ord" "HOL-Library.List_Lexorder"
begin

section \<open>Strings and the Python built-ins the program relies on\<close>

text \<open>
  A Python \<open>str\<close> is modelled as a \<open>string\<close> whose characters are the code points
  0..255. The built-ins \<open>str.strip\<close>, \<open>str.lower\<close>, \<open>int\<close>, \<open>float\<close> and
  \<open>str\<close> are not part of \<open>main.py\<close>; they are modelled after CPython 3 on that
  range of characters.
\<close>

definition is_space :: "char \<Rightarrow> bool" where
  \<comment> \<open>the characters \<open>str.strip()\<close> removes: TAB, LF, VT, FF, CR, FS, GS, RS, US, space, NEL, NBSP\<close>
  "is_space c \<longleftrightarrow> c \<in> set [CHR 0x09, CHR 0x0A, CHR 0x0B, CHR 0x0C, CHR 0x0D,
      CHR 0x1C, CHR 0x1D, CHR 0x1E, CHR 0x1F, CHR 0x20, CHR 0x85, CHR 0xA0]"

definition strip :: "string \<Rightarrow> string" where
  "strip s = rev (dropWhile is_space (rev (dropWhile is_space s)))"

definition num_space :: "char \<Rightarrow> bool" where
  \<comment> \<open>the characters \<open>int()\<close> and \<open>float()\<close> skip around a literal; FS, GS, RS, US are not among them\<close>
  "num_space c \<longleftrightarrow> c \<in> set [CHR 0x09, CHR 0x0A, CHR 0x0B, CHR 0x0C, CHR 0x0D,
      CHR 0x20, CHR 0x85, CHR 0xA0]"

definition num_strip :: "string \<Rightarrow> string" where
  "num_strip s = rev (dropWhile num_space (rev (dropWhile num_space s)))"

definition is_digit :: "char \<Rightarrow> bool" where
  "is_digit c \<longleftrightarrow> c \<in> set ''0123456789''"

definition digit_val :: "char \<Rightarrow> nat" where
  "digit_val c = of_char c - 48"

definition digit_char :: "nat \<Rightarrow> char" where
  "digit_char d = char_of (48 + d)"

definition nat_of_digits :: "string \<Rightarrow> nat" where
  "nat_of_digits ds = foldl (\<lambda>a c. 10 * a + digit_val c) 0 ds"

function digits_of :: "nat \<Rightarrow> string" where
  "digits_of n = (if n < 10 then [digit_char n] else digits_of (n div 10) @ [digit_char (n mod 10)])"
  by pat_completeness auto
termination
  by (relation "measure id") auto

declare digits_of.simps [simp del]

fun remove_underscores :: "char \<Rightarrow> string \<Rightarrow> string option" where
  \<comment> \<open>numeric literals may hold single underscores between two digits; the first argument
      is the previous character\<close>
  "remove_underscores prev [] = (if prev = CHR ''_'' then None else Some [])"
| "remove_underscores prev (c # cs) =
     (if c = CHR ''_'' then (if is_digit prev then remove_underscores c cs else None)
      else if prev = CHR ''_'' \<and> \<not> is_digit c then None
      else map_option ((#) c) (remove_underscores c cs))"

definition digits_value :: "string \<Rightarrow> nat option" where
  \<comment> \<open>a non-empty run of decimal digits, and nothing else\<close>
  "digits_value ds = (if ds \<noteq> [] \<and> list_all is_digit ds then Some (nat_of_digits ds) else None)"

definition signed_digits :: "string \<Rightarrow> int option" where
  "signed_digits u =
     (case u of
        [] \<Rightarrow> None
      | c # ds \<Rightarrow>
          if c = CHR ''-'' then map_option (\<lambda>n. - int n) (digits_value ds)
          else if c = CHR ''+'' then map_option int (digits_value ds)
          else map_option int (digits_value u))"

definition py_int :: "string \<Rightarrow> int option" where
  \<comment> \<open>\<open>int(s)\<close>, with \<open>None\<close> for \<open>ValueError\<close>\<close>
  "py_int s =
     (case remove_underscores (CHR 0x00) (num_strip s) of
        None \<Rightarrow> None
      | Some u \<Rightarrow> signed_digits u)"

text \<open>
  A Python \<open>float\<close> is kept as the decimal its literal denotes: sign, mantissa and
  power of ten, normalised so that the mantissa has no trailing zero. Rounding to 53
  bits, overflow to infinity and underflow to zero are not modelled, so \<open>repr\<close> below
  prints all the digits of the decimal where Python prints the shortest digits of the
  rounded float, and \<open>==\<close> compares the decimals. An \<open>int\<close> is unbounded; the limit
  CPython can put on the number of digits \<open>int\<close> and \<open>str\<close> convert is not modelled.
\<close>

datatype pyfloat = Fin bool nat int | Inf bool | NaN

function normalize :: "nat \<Rightarrow> int \<Rightarrow> nat \<times> int" where
  "normalize m e =
     (if m = 0 then (0, 0)
      else if m mod 10 = 0 then normalize (m div 10) (e + 1)
      else (m, e))"
  by pat_completeness auto
termination
  by (relation "measure fst") auto

declare normalize.simps [simp del]

definition lower_char :: "char \<Rightarrow> char" where
  "lower_char c =
     (let n = (of_char c :: nat)
      in if (65 \<le> n \<and> n \<le> 90) \<or> (192 \<le> n \<and> n \<le> 222 \<and> n \<noteq> 215) then char_of (n + 32) else c)"

definition lower :: "string \<Rightarrow> string" where
  "lower s = map lower_char s"

definition split_sign :: "string \<Rightarrow> bool \<times> string" where
  "split_sign u =
     (case u of
        [] \<Rightarrow> (False, [])
      | c # cs \<Rightarrow> if c = CHR ''-'' then (True, cs) else if c = CHR ''+'' then (False, cs) else (False, u))"

definition parse_exponent :: "string \<Rightarrow> int option" where
  \<comment> \<open>what may follow the mantissa: nothing, or \<open>e\<close>/\<open>E\<close> and a signed run of digits\<close>
  "parse_exponent r =
     (case r of
        [] \<Rightarrow> Some 0
      | c # cs \<Rightarrow> if c = CHR ''e'' \<or> c = CHR ''E'' then signed_digits cs else None)"

definition parse_decimal :: "bool \<Rightarrow> string \<Rightarrow> pyfloat option" where
  "parse_decimal neg body =
     (let ip = takeWhile is_digit body;
          r1 = dropWhile is_digit body;
          fp = (case r1 of [] \<Rightarrow> [] | c # cs \<Rightarrow> if c = CHR ''.'' then takeWhile is_digit cs else []);
          r2 = (case r1 of [] \<Rightarrow> [] | c # cs \<Rightarrow> if c = CHR ''.'' then dropWhile is_digit cs else r1)
      in if ip = [] \<and> fp = [] then None
         else (case parse_exponent r2 of
                 None \<Rightarrow> None
               | Some x \<Rightarrow>
                   (case normalize (nat_of_digits (ip @ fp)) (x - int (length fp)) of
                      (m, e) \<Rightarrow> Some (Fin neg m e))))"

definition py_float :: "string \<Rightarrow> pyfloat option" where
  \<comment> \<open>\<open>float(s)\<close>, with \<open>None\<close> for \<open>ValueError\<close>\<close>
  "py_float s =
     (case remove_underscores (CHR 0x00) (num_strip s) of
        None \<Rightarrow> None
      | Some u \<Rightarrow>
          (case split_sign u of
             (neg, body) \<Rightarrow>
               if lower body = ''inf'' \<or> lower body = ''infinity'' then Some (Inf neg)
               else if lower body = ''nan'' then Some NaN
               else parse_decimal neg body))"

section \<open>Values\<close>

datatype pyval = Integer int | Real pyfloat | Text string

definition auto_cast :: "string \<Rightarrow> pyval" where
  "auto_cast v =
     (case py_int v of
        Some i \<Rightarrow> Integer i
      | None \<Rightarrow>
          (case py_float v of
             Some r \<Rightarrow> Real r
           | None \<Rightarrow> Text (strip v)))"

definition str_int :: "int \<Rightarrow> string" where
  "str_int i = (if i < 0 then CHR ''-'' # digits_of (nat (- i)) else digits_of (nat i))"

definition exponent_str :: "int \<Rightarrow> string" where
  \<comment> \<open>sign and at least two digits, as in \<open>1e+16\<close> and \<open>1e-05\<close>\<close>
  "exponent_str x =
     (if x < 0 then CHR ''-'' else CHR ''+'') #
     (if \<bar>x\<bar> < 10 then CHR ''0'' # digits_of (nat \<bar>x\<bar>) else digits_of (nat \<bar>x\<bar>))"

definition finite_repr :: "nat \<Rightarrow> int \<Rightarrow> string" where
  \<comment> \<open>\<open>repr\<close> of a positive float with digits \<open>m\<close> and power of ten \<open>e\<close>: positional
      notation while the decimal point lies within \<open>-4 < decpt \<le> 16\<close>, else scientific\<close>
  "finite_repr m e =
     (let ds = digits_of m;
          n = int (length ds);
          decpt = n + e
      in if -4 < decpt \<and> decpt \<le> 16 then
           (if decpt \<le> 0 then ''0.'' @ replicate (nat (- decpt)) CHR ''0'' @ ds
            else if n \<le> decpt then ds @ replicate (nat (decpt - n)) CHR ''0'' @ ''.0''
            else take (nat decpt) ds @ ''.'' @ drop (nat decpt) ds)
         else
           hd ds # (if 1 < n then CHR ''.'' # tl ds else []) @ ''e'' @ exponent_str (decpt - 1))"

fun float_repr :: "pyfloat \<Rightarrow> string" where
  "float_repr (Fin neg m e) =
     (if neg then ''-'' else []) @ (if m = 0 then ''0.0'' else finite_repr m e)"
| "float_repr (Inf neg) = (if neg then ''-inf'' else ''inf'')"
| "float_repr NaN = ''nan''"

fun py_str :: "pyval \<Rightarrow> string" where
  \<comment> \<open>what an f-string prints for a value\<close>
  "py_str (Integer i) = str_int i"
| "py_str (Real r) = float_repr r"
| "py_str (Text s) = s"

fun truthy :: "pyval \<Rightarrow> bool" where
  "truthy (Integer i) \<longleftrightarrow> i \<noteq> 0"
| "truthy (Real (Fin neg m e)) \<longleftrightarrow> m \<noteq> 0"
| "truthy (Real (Inf neg)) \<longleftrightarrow> True"
| "truthy (Real NaN) \<longleftrightarrow> True"
| "truthy (Text s) \<longleftrightarrow> s \<noteq> []"

definition signed :: "bool \<Rightarrow> nat \<Rightarrow> int" where
  "signed neg m = (if neg then - int m else int m)"

definition scaled_eq :: "int \<Rightarrow> int \<Rightarrow> int \<Rightarrow> int \<Rightarrow> bool" where
  \<comment> \<open>\<open>a * 10^e = b * 10^f\<close>, computed over the integers\<close>
  "scaled_eq a e b f \<longleftrightarrow> a * 10 ^ nat (e - min e f) = b * 10 ^ nat (f - min e f)"

fun float_eq :: "pyfloat \<Rightarrow> pyfloat \<Rightarrow> bool" where
  "float_eq (Fin n1 m1 e1) (Fin n2 m2 e2) \<longleftrightarrow> scaled_eq (signed n1 m1) e1 (signed n2 m2) e2"
| "float_eq (Inf n1) (Inf n2) \<longleftrightarrow> n1 = n2"
| "float_eq _ _ \<longleftrightarrow> False"

fun float_eq_int :: "pyfloat \<Rightarrow> int \<Rightarrow> bool" where
  "float_eq_int (Fin neg m e) i \<longleftrightarrow> scaled_eq (signed neg m) e i 0"
| "float_eq_int _ i \<longleftrightarrow> False"

fun py_eq :: "pyval \<Rightarrow> pyval \<Rightarrow> bool" where
  \<comment> \<open>Python's \<open>==\<close> on values: numbers compare by value across \<open>int\<close> and \<open>float\<close>,
      a \<open>str\<close> equals only the same \<open>str\<close>, NaN equals nothing\<close>
  "py_eq (Integer i) (Integer j) \<longleftrightarrow> i = j"
| "py_eq (Integer i) (Real r) \<longleftrightarrow> float_eq_int r i"
| "py_eq (Real r) (Integer j) \<longleftrightarrow> float_eq_int r j"
| "py_eq (Real r) (Real q) \<longleftrightarrow> float_eq r q"
| "py_eq (Text s) (Text t) \<longleftrightarrow> s = t"
| "py_eq _ _ \<longleftrightarrow> False"

section \<open>Frames and documents\<close>

text \<open>
  A frame is a Python \<open>dict\<close>: an association list in insertion order, whose keys are
  distinct because every entry is stored through \<open>dict_set\<close>. \<open>get_frames\<close> makes
  a new \<open>dict\<close> for every block, so no two frames of a document are the same object,
  and the update of one frame in place is the replacement of one element of the list.
\<close>

type_synonym frame = "(string \<times> pyval) list"

fun dict_set :: "('k \<times> 'v) list \<Rightarrow> 'k \<Rightarrow> 'v \<Rightarrow> ('k \<times> 'v) list" where
  \<comment> \<open>\<open>d[k] = v\<close>\<close>
  "dict_set [] k v = [(k, v)]"
| "dict_set ((k', v') # d) k v = (if k' = k then (k, v) # d else (k', v') # dict_set d k v)"

section \<open>Parsing\<close>

definition parse_kv_line :: "string \<Rightarrow> (string \<times> pyval) option" where
  \<comment> \<open>\<open>None\<close> stands for the pair \<open>(None, None)\<close>\<close>
  "parse_kv_line line =
     (if CHR '':'' \<notin> set line then None
      else
        (let key = takeWhile (\<lambda>c. c \<noteq> CHR '':'') line;
             value = tl (dropWhile (\<lambda>c. c \<noteq> CHR '':'') line)
         in Some (strip key, auto_cast (strip value))))"

definition is_newline :: "char \<Rightarrow> bool" where
  "is_newline c \<longleftrightarrow> c = CHR 0x0A \<or> c = CHR 0x0D"

fun split_lines :: "string \<Rightarrow> string list" where
  \<comment> \<open>the lines of a text file; a CR LF pair leaves an empty line, which the reader drops\<close>
  "split_lines [] = [[]]"
| "split_lines (c # cs) =
     (if is_newline c then [] # split_lines cs
      else (case split_lines cs of [] \<Rightarrow> [[c]] | l # ls \<Rightarrow> (c # l) # ls))"

definition read_lines :: "string \<Rightarrow> string list" where
  \<comment> \<open>\<open>[line.strip() for line in f if line.strip()]\<close>\<close>
  "read_lines text = filter (\<lambda>l. l \<noteq> []) (map strip (split_lines text))"

definition parse_block :: "string list \<Rightarrow> nat \<Rightarrow> frame" where
  "parse_block lines index =
     foldl (\<lambda>frame_data offset.
              case parse_kv_line (lines ! (index + offset)) of
                None \<Rightarrow> frame_data
              | Some (key, value) \<Rightarrow> if key \<noteq> [] then dict_set frame_data key value else frame_data)
           [] [0..<7]"

function get_frames_loop :: "string list \<Rightarrow> nat \<Rightarrow> frame list \<Rightarrow> frame list" where
  "get_frames_loop lines index frames =
     (if index + 6 < length lines
      then get_frames_loop lines (index + 7) (frames @ [parse_block lines index])
      else frames)"
  by pat_completeness auto
termination
  by (relation "measure (\<lambda>(lines, index, frames). length lines - index)") auto

declare get_frames_loop.simps [simp del]

definition get_frames :: "string \<Rightarrow> frame list \<times> string" where
  \<comment> \<open>the argument is the content of the file at \<open>path\<close>\<close>
  "get_frames text =
     (let lines = read_lines text
      in case lines of
           [] \<Rightarrow> ([], [])
         | version_header # _ \<Rightarrow> (get_frames_loop lines 1 [], version_header))"

section \<open>Serialising\<close>

definition frame_lines :: "frame \<Rightarrow> string list" where
  \<comment> \<open>the block of one frame; the last branch is \<open>KeyError\<close>, which cannot happen since
      \<open>key\<close> is one of the frame's keys\<close>
  "frame_lines frame =
     (''Frame: '' @ (case map_of frame ''Frame'' of None \<Rightarrow> [] | Some v \<Rightarrow> py_str v)) #
     map (\<lambda>key. case map_of frame key of Some value \<Rightarrow> key @ '': '' @ py_str value | None \<Rightarrow> [])
         (sort (filter (\<lambda>k. k \<noteq> ''Frame'') (map fst frame)))"

fun join_lines :: "string list \<Rightarrow> string" where
  \<comment> \<open>\<open>"\n".join(output)\<close>\<close>
  "join_lines [] = []"
| "join_lines [l] = l"
| "join_lines (l # ls) = l @ CHR 0x0A # join_lines ls"

definition serialize_lines :: "frame list \<Rightarrow> string \<Rightarrow> string list" where
  "serialize_lines frames version_header = version_header # concat (map frame_lines frames)"

definition serialize_frames :: "frame list \<Rightarrow> string \<Rightarrow> string" where
  "serialize_frames frames version_header = join_lines (serialize_lines frames version_header)"

section \<open>Overrides\<close>

datatype error =
    InvalidSetArgument string   \<comment> \<open>\<open>Invalid --set argument: <pair>\<close>\<close>
  | InvalidKey string           \<comment> \<open>\<open>Invalid key in --set: <key>\<close>\<close>
  | StopIteration               \<comment> \<open>\<open>next\<close> on an exhausted generator\<close>
  | FrameRequired               \<comment> \<open>\<open>Error: --set requires at least Frame=<name>\<close>\<close>
  | FrameNotFound pyval         \<comment> \<open>\<open>Error: Frame '<name>' not found in file.\<close>\<close>

definition VALID_KEYS :: "string list" where
  \<comment> \<open>a \<open>set\<close> in the source; its members differ in lower case, so the order in which
      \<open>next\<close> searches it does not matter\<close>
  "VALID_KEYS = [''Frame'', ''FrameLevel'', ''Anchor'', ''X'', ''Y'', ''W'', ''H'']"

definition VALID_KEYS_LOWER :: "string list" where
  "VALID_KEYS_LOWER = map lower VALID_KEYS"

fun parse_overrides_loop :: "string list \<Rightarrow> frame \<Rightarrow> error + frame" where
  "parse_overrides_loop [] overrides = Inr overrides"
| "parse_overrides_loop (pair # pairs) overrides =
     (if CHR ''='' \<notin> set pair then Inl (InvalidSetArgument pair)
      else
        (let key = strip (takeWhile (\<lambda>c. c \<noteq> CHR ''='') pair);
             value = tl (dropWhile (\<lambda>c. c \<noteq> CHR ''='') pair)
         in if lower key \<notin> set VALID_KEYS_LOWER then Inl (InvalidKey key)
            else
              (case find (\<lambda>vk. lower vk = lower key) VALID_KEYS of
                 None \<Rightarrow> Inl StopIteration
               | Some proper_key \<Rightarrow>
                   parse_overrides_loop pairs (dict_set overrides proper_key (auto_cast (strip value))))))"

definition parse_overrides :: "string list \<Rightarrow> error + frame" where
  "parse_overrides pairs = parse_overrides_loop pairs []"

definition merge_overrides :: "frame \<Rightarrow> frame \<Rightarrow> frame" where
  \<comment> \<open>the inner loop: every override except \<open>Frame\<close> is stored in the frame\<close>
  "merge_overrides frame overrides =
     foldl (\<lambda>fr (key, value). if key \<noteq> ''Frame'' then dict_set fr key value else fr) frame overrides"

definition frame_matches :: "frame \<Rightarrow> pyval \<Rightarrow> bool" where
  \<comment> \<open>\<open>frame.get("Frame") == target_name\<close>; the \<open>None\<close> of a missing key equals no value\<close>
  "frame_matches frame target_name =
     (case map_of frame ''Frame'' of None \<Rightarrow> False | Some v \<Rightarrow> py_eq v target_name)"

fun apply_loop :: "frame list \<Rightarrow> frame \<Rightarrow> pyval \<Rightarrow> frame list option" where
  \<comment> \<open>the scan over the frames; \<open>None\<close> when the loop ends without a match\<close>
  "apply_loop [] overrides target_name = None"
| "apply_loop (frame # frames) overrides target_name =
     (if frame_matches frame target_name then Some (merge_overrides frame overrides # frames)
      else map_option ((#) frame) (apply_loop frames overrides target_name))"

definition apply_overrides :: "frame list \<Rightarrow> frame \<Rightarrow> error option \<times> frame list" where
  \<comment> \<open>the result is the exit taken (\<open>None\<close> for a normal return) and the list \<open>frames\<close>
      as the call leaves it\<close>
  "apply_overrides frames overrides =
     (case map_of overrides ''Frame'' of
        None \<Rightarrow> (Some FrameRequired, frames)
      | Some target_name \<Rightarrow>
          if \<not> truthy target_name then (Some FrameRequired, frames)
          else
            (case apply_loop frames overrides target_name of
               Some frames' \<Rightarrow> (None, frames')
             | None \<Rightarrow> (Some (FrameNotFound target_name), frames)))"

section \<open>Auxiliary notions for the proofs\<close>

text \<open>
  \<open>upd_first d m\<close> overwrites, at the first entry of each key, the value by the one \<open>m\<close>
  gives; \<open>ov_map\<close> is the mapping an override list stores, \<open>Frame\<close> left out.
\<close>

fun upd_first :: "('k \<times> 'v) list \<Rightarrow> ('k \<rightharpoonup> 'v) \<Rightarrow> ('k \<times> 'v) list" where
  "upd_first [] m = []"
| "upd_first ((k, v) # d) m = (k, case m k of Some v' \<Rightarrow> v' | None \<Rightarrow> v) # upd_first d (m(k := None))"

definition ov_map :: "frame \<Rightarrow> (string \<rightharpoonup> pyval)" where
  "ov_map overrides = map_of (rev (filter (\<lambda>(k, v). k \<noteq> ''Frame'') overrides))"

text \<open>
  \<open>token_key\<close> is the key \<open>parse_overrides\<close> reads from a token; a token is well formed
  when it has a \<open>=\<close> and its key is, up to case, one of \<open>VALID_KEYS\<close>.
\<close>

definition token_key :: "string \<Rightarrow> string" where
  "token_key pair = strip (takeWhile (\<lambda>c. c \<noteq> CHR ''='') pair)"

definition well_formed_token :: "string \<Rightarrow> bool" where
  "well_formed_token pair \<longleftrightarrow>
     CHR ''='' \<in> set pair \<and> lower (token_key pair) \<in> set (map lower VALID_KEYS)"

text \<open>
  \<open>block_step\<close> is the body of the loop over the seven lines of a block, and
  \<open>good_keys\<close> says that every key of a frame is non-empty and trimmed.
\<close>

definition block_step :: "string list \<Rightarrow> nat \<Rightarrow> frame \<Rightarrow> nat \<Rightarrow> frame" where
  "block_step lines index frame_data offset =
     (case parse_kv_line (lines ! (index + offset)) of
        None \<Rightarrow> frame_data
      | Some (key, value) \<Rightarrow> if key \<noteq> [] then dict_set frame_data key value else frame_data)"

definition good_keys :: "frame \<Rightarrow> bool" where
  "good_keys frame \<longleftrightarrow> (\<forall>key\<in>fst ` set frame. key \<noteq> [] \<and> strip key = key)"

text \<open>
  The parts of \<open>frame_lines\<close>: the first line, the sorted keys and the line of a key.
\<close>

definition field_line :: "frame \<Rightarrow> string \<Rightarrow> string" where
  "field_line frame key =
     (case map_of frame key of Some value \<Rightarrow> key @ '': '' @ py_str value | None \<Rightarrow> [])"

definition sorted_keys :: "frame \<Rightarrow> string list" where
  "sorted_keys frame = sort (filter (\<lambda>k. k \<noteq> ''Frame'') (map fst frame))"

definition frame_head :: "frame \<Rightarrow> string" where
  "frame_head frame = ''Frame: '' @ (case map_of frame ''Frame'' of None \<Rightarrow> [] | Some v \<Rightarrow> py_str v)"











section \<open>Dictionaries and the merge\<close>

lemma map_of_dict_set: "map_of (dict_set d k v) = (map_of d)(k \<mapsto> v)"
  by (induction d) (auto simp: fun_eq_iff)

lemma keys_dict_set: "fst ` set (dict_set d k v) = insert k (fst ` set d)"
  by (induction d) (force split: if_splits)+

lemma distinct_dict_set: "distinct (map fst d) \<Longrightarrow> distinct (map fst (dict_set d k v))"
  by (induction d) (auto simp: keys_dict_set)

lemma upd_first_empty: "upd_first d Map.empty = d"
  by (induction d) auto

lemma dict_set_present: "k \<in> fst ` set d \<Longrightarrow> dict_set d k v = upd_first d [k \<mapsto> v]"
proof (induction d)
  case Nil then show ?case by simp
next
  case (Cons a d)
  obtain k' v' where a: "a = (k', v')" by (cases a)
  show ?case
  proof (cases "k' = k")
    case True
    have e: "[k \<mapsto> v](k := None) = Map.empty" by (rule ext) simp
    have "upd_first ((k, v') # d) [k \<mapsto> v] = (k, v) # upd_first d Map.empty"
      by (simp only: upd_first.simps e fun_upd_same option.case)
    moreover have "dict_set ((k, v') # d) k v = (k, v) # d" by simp
    ultimately show ?thesis unfolding a True by (simp only: upd_first_empty)
  next
    case False
    have e: "[k \<mapsto> v](k' := None) = [k \<mapsto> v]" using False by (intro ext) simp
    have kin: "k \<in> fst ` set d" using Cons.prems a False by auto
    have "upd_first ((k', v') # d) [k \<mapsto> v] = (k', v') # upd_first d [k \<mapsto> v]"
      using False by (simp only: upd_first.simps e) simp
    then show ?thesis unfolding a using False Cons.IH[OF kin] by (simp only: dict_set.simps if_False)
  qed
qed

lemma upd_first_comp: "upd_first (upd_first d m1) m2 = upd_first d (m1 ++ m2)"
proof (induction d arbitrary: m1 m2)
  case Nil then show ?case by simp
next
  case (Cons a d)
  obtain k v where a: "a = (k, v)" by (cases a)
  have r: "(m1 ++ m2)(k := None) = m1(k := None) ++ m2(k := None)"
    by (auto simp: fun_eq_iff map_add_def split: option.splits)
  have h: "(case m2 k of Some v' \<Rightarrow> v' | None \<Rightarrow> (case m1 k of Some v' \<Rightarrow> v' | None \<Rightarrow> v))
           = (case (m1 ++ m2) k of Some v' \<Rightarrow> v' | None \<Rightarrow> v)"
    by (simp add: map_add_def split: option.splits)
  have "upd_first (upd_first (a # d) m1) m2 =
        (k, case (m1 ++ m2) k of Some v' \<Rightarrow> v' | None \<Rightarrow> v) #
          upd_first (upd_first d (m1(k := None))) (m2(k := None))"
    unfolding a upd_first.simps h ..
  also have "\<dots> = upd_first (a # d) (m1 ++ m2)"
    unfolding a upd_first.simps Cons.IH r ..
  finally show ?case .
qed

lemma keys_upd_first: "map fst (upd_first d m) = map fst d"
  by (induction d arbitrary: m) auto

lemma upd_first_id: "(\<And>k v. m k = Some v \<Longrightarrow> map_of d k = Some v) \<Longrightarrow> upd_first d m = d"
proof (induction d arbitrary: m)
  case Nil then show ?case by simp
next
  case (Cons a d)
  obtain k v where a: "a = (k, v)" by (cases a)
  have "upd_first d (m(k := None)) = d"
  proof (rule Cons.IH)
    fix k' v' assume "(m(k := None)) k' = Some v'"
    then have "k' \<noteq> k" "m k' = Some v'" by (auto split: if_splits)
    with Cons.prems[of k' v'] a show "map_of d k' = Some v'" by auto
  qed
  moreover have "(case m k of Some v' \<Rightarrow> v' | None \<Rightarrow> v) = v"
    using Cons.prems[of k] a by (auto split: option.splits)
  ultimately show ?case using a by simp
qed

lemma map_of_merge: "map_of (merge_overrides f ov) = map_of f ++ ov_map ov"
  unfolding merge_overrides_def ov_map_def
proof (induction ov arbitrary: f)
  case Nil then show ?case by simp
next
  case (Cons a ov)
  obtain k v where a: "a = (k, v)" by (cases a)
  show ?case using Cons[of "dict_set f k v"] Cons[of f] a
    by (auto simp: map_of_dict_set fun_eq_iff map_add_def split: option.splits)
qed

lemma ov_map_Frame: "ov_map ov ''Frame'' = None"
  unfolding ov_map_def by (induction ov) (auto simp: map_add_def split: option.splits)

lemma merge_keeps_Frame: "map_of (merge_overrides f ov) ''Frame'' = map_of f ''Frame''"
  by (simp add: map_of_merge map_add_def ov_map_Frame)

lemma keys_merge: "fst ` set (merge_overrides f ov) = fst ` set f \<union> dom (ov_map ov)"
proof -
  have "dom (map_of (merge_overrides f ov)) = dom (map_of f) \<union> dom (ov_map ov)"
    by (auto simp: map_of_merge)
  then show ?thesis by (simp only: dom_map_of_conv_image_fst)
qed

lemma foldl_merge_snoc:
  "merge_overrides f (ov @ [(k, v)]) =
     (if k \<noteq> ''Frame'' then dict_set (merge_overrides f ov) k v else merge_overrides f ov)"
  by (simp add: merge_overrides_def)

lemma ov_map_snoc:
  "ov_map (ov @ [(k, v)]) = (if k \<noteq> ''Frame'' then ov_map ov ++ [k \<mapsto> v] else ov_map ov)"
  by (auto simp: ov_map_def fun_eq_iff map_add_def)

lemma merge_present:
  "dom (ov_map ov) \<subseteq> fst ` set f \<Longrightarrow> merge_overrides f ov = upd_first f (ov_map ov)"
proof (induction ov rule: rev_induct)
  case Nil then show ?case by (simp add: upd_first_empty merge_overrides_def ov_map_def)
next
  case (snoc a ov)
  obtain k v where a: "a = (k, v)" by (cases a)
  show ?case
  proof (cases "k = ''Frame''")
    case True
    with snoc a show ?thesis by (simp add: foldl_merge_snoc ov_map_snoc)
  next
    case False
    have d: "dom (ov_map (ov @ [a])) = insert k (dom (ov_map ov))"
      using a False by (auto simp: ov_map_snoc)
    have sub: "dom (ov_map ov) \<subseteq> fst ` set f" and kin: "k \<in> fst ` set f"
      using snoc.prems d by auto
    have "fst ` set (upd_first f (ov_map ov)) = fst ` set f"
      using keys_upd_first[of f "ov_map ov"] by (metis set_map)
    then have kin': "k \<in> fst ` set (upd_first f (ov_map ov))" using kin by simp
    have "merge_overrides f (ov @ [a]) = dict_set (upd_first f (ov_map ov)) k v"
      using a False snoc.IH[OF sub] by (simp add: foldl_merge_snoc)
    also have "\<dots> = upd_first f (ov_map ov ++ [k \<mapsto> v])"
      by (simp only: dict_set_present[OF kin'] upd_first_comp)
    also have "ov_map ov ++ [k \<mapsto> v] = ov_map (ov @ [a])"
      using a False by (simp only: ov_map_snoc if_True simp_thms)
    finally show ?thesis .
  qed
qed

lemma merge_idem: "merge_overrides (merge_overrides f ov) ov = merge_overrides f ov"
proof -
  let ?g = "merge_overrides f ov"
  have "dom (ov_map ov) \<subseteq> fst ` set ?g" using keys_merge[of f ov] by auto
  then have "merge_overrides ?g ov = upd_first ?g (ov_map ov)" by (rule merge_present)
  also have "\<dots> = ?g"
    by (rule upd_first_id) (simp add: map_of_merge map_add_def)
  finally show ?thesis .
qed

lemma frame_matches_merge: "frame_matches (merge_overrides f ov) t = frame_matches f t"
  by (simp add: frame_matches_def merge_keeps_Frame)


lemma apply_loop_found:
  "\<forall>g\<in>set pre. \<not> frame_matches g t \<Longrightarrow> frame_matches f t \<Longrightarrow>
   apply_loop (pre @ f # post) ov t = Some (pre @ merge_overrides f ov # post)"
  by (induction pre) auto

lemma apply_loop_split:
  "apply_loop frames ov t = Some frames' \<Longrightarrow>
   \<exists>pre f post. frames = pre @ f # post \<and> (\<forall>g\<in>set pre. \<not> frame_matches g t) \<and> frame_matches f t \<and>
     frames' = pre @ merge_overrides f ov # post"
proof (induction frames arbitrary: frames')
  case Nil then show ?case by simp
next
  case (Cons a frames)
  show ?case
  proof (cases "frame_matches a t")
    case True
    with Cons.prems have "frames' = merge_overrides a ov # frames" by simp
    with True show ?thesis by (intro exI[of _ "[]"] exI[of _ a] exI[of _ frames]) simp
  next
    case False
    with Cons.prems obtain r where r: "apply_loop frames ov t = Some r" "frames' = a # r" by auto
    from Cons.IH[OF r(1)] obtain pre f post where
      "frames = pre @ f # post" "\<forall>g\<in>set pre. \<not> frame_matches g t" "frame_matches f t"
      "r = pre @ merge_overrides f ov # post" by blast
    with False r(2) show ?thesis
      by (intro exI[of _ "a # pre"] exI[of _ f] exI[of _ post]) simp
  qed
qed

lemma apply_loop_idem:
  "apply_loop frames ov t = Some frames' \<Longrightarrow> apply_loop frames' ov t = Some frames'"
proof -
  assume "apply_loop frames ov t = Some frames'"
  from apply_loop_split[OF this] obtain pre f post where
    s: "frames = pre @ f # post" "\<forall>g\<in>set pre. \<not> frame_matches g t" "frame_matches f t"
       "frames' = pre @ merge_overrides f ov # post" by blast
  have "frame_matches (merge_overrides f ov) t" using s(3) by (simp add: frame_matches_merge)
  from apply_loop_found[OF s(2) this, of post ov] show ?thesis using s(4) by (simp add: merge_idem)
qed

section \<open>The override merger\<close>

lemma apply_overrides_truthy:
  "map_of overrides ''Frame'' = Some target_name \<Longrightarrow> truthy target_name \<Longrightarrow>
   apply_overrides frames overrides =
     (case apply_loop frames overrides target_name of
        Some frames' \<Rightarrow> (None, frames')
      | None \<Rightarrow> (Some (FrameNotFound target_name), frames))"
  by (simp add: apply_overrides_def)

lemma apply_overrides_None_D:
  "apply_overrides frames overrides = (None, frames') \<Longrightarrow>
   \<exists>target_name. map_of overrides ''Frame'' = Some target_name \<and> truthy target_name \<and>
      apply_loop frames overrides target_name = Some frames'"
  by (auto simp: apply_overrides_def split: option.splits if_splits)



text \<open>
  Claim C9. The merge is idempotent: when \<open>apply_overrides\<close> returns normally and
  leaves the frames \<open>frames'\<close>, applying the same overrides to \<open>frames'\<close> returns
  normally again and leaves \<open>frames'\<close> unchanged.
\<close>
theorem apply_overrides_idempotent:
  assumes "apply_overrides frames overrides = (None, frames')"
  shows "apply_overrides frames' overrides = (None, frames')"
proof -
  from apply_overrides_None_D[OF assms] obtain target_name where
    t: "map_of overrides ''Frame'' = Some target_name" "truthy target_name"
       "apply_loop frames overrides target_name = Some frames'" by blast
  from apply_loop_idem[OF t(3)] show ?thesis using t(1,2) by (simp add: apply_overrides_truthy)
qed

theorem apply_overrides_idempotent_witness:
  "apply_overrides
     [[(''Frame'', Text ''A''), (''X'', Integer 99), (''Y'', Integer 2), (''Scale'', Integer 3)]]
     [(''Frame'', Text ''A''), (''X'', Integer 99), (''Scale'', Integer 3)] =
   (None, [[(''Frame'', Text ''A''), (''X'', Integer 99), (''Y'', Integer 2), (''Scale'', Integer 3)]])"
proof (rule apply_overrides_idempotent)
  show "apply_overrides [[(''Frame'', Text ''A''), (''X'', Integer 1), (''Y'', Integer 2)]]
     [(''Frame'', Text ''A''), (''X'', Integer 99), (''Scale'', Integer 3)] =
   (None, [[(''Frame'', Text ''A''), (''X'', Integer 99), (''Y'', Integer 2), (''Scale'', Integer 3)]])"
    by (simp add: apply_overrides_def frame_matches_def merge_overrides_def)
qed

text \<open>
  Claim C4. The claim lets the missing-identity error occur only when the overrides have
  no \<open>Frame\<close> key or an empty \<open>Frame\<close> value. The guard \<open>if not target_name\<close>
  also fires on the integer 0: the arguments \<open>Frame=0 X=99\<close> parse to a \<open>Frame\<close>
  value that is present and is the name of the frame of the document, and
  \<open>apply_overrides\<close> still exits with the error for a missing \<open>Frame=<name>\<close>.
\<close>
theorem apply_overrides_rejects_frame_zero:
  "parse_overrides [''Frame=0'', ''X=99''] = Inr [(''Frame'', Integer 0), (''X'', Integer 99)] \<and>
   apply_overrides [[(''Frame'', Integer 0), (''X'', Integer 1)]] [(''Frame'', Integer 0), (''X'', Integer 99)] =
     (Some FrameRequired, [[(''Frame'', Integer 0), (''X'', Integer 1)]])"
  by code_simp

lemma apply_overrides_FrameRequired_iff:
  "fst (apply_overrides frames overrides) = Some FrameRequired \<longleftrightarrow>
     (case map_of overrides ''Frame'' of None \<Rightarrow> True | Some target_name \<Rightarrow> \<not> truthy target_name)"
  by (auto simp: apply_overrides_def split: option.splits)




section \<open>Override tokens\<close>

lemma find_valid_key:
  "lower key \<in> set (map lower VALID_KEYS) \<Longrightarrow>
   \<exists>vk. find (\<lambda>vk. lower vk = lower key) VALID_KEYS = Some vk \<and> vk \<in> set VALID_KEYS \<and> lower vk = lower key"
proof -
  assume "lower key \<in> set (map lower VALID_KEYS)"
  then have "find (\<lambda>vk. lower vk = lower key) VALID_KEYS \<noteq> None"
    by (auto simp: find_None_iff)
  then obtain vk where f: "find (\<lambda>vk. lower vk = lower key) VALID_KEYS = Some vk" by auto
  then show ?thesis by (auto simp: find_Some_iff in_set_conv_nth)
qed

lemma parse_overrides_loop_good:
  "well_formed_token pair \<Longrightarrow>
   \<exists>vk. vk \<in> set VALID_KEYS \<and> lower vk = lower (token_key pair) \<and>
     parse_overrides_loop (pair # pairs) ov =
       parse_overrides_loop pairs
         (dict_set ov vk (auto_cast (strip (tl (dropWhile (\<lambda>c. c \<noteq> CHR ''='') pair)))))"
proof -
  assume w: "well_formed_token pair"
  then have "lower (token_key pair) \<in> set (map lower VALID_KEYS)" by (simp add: well_formed_token_def)
  from find_valid_key[OF this] obtain vk where
    vk: "find (\<lambda>vk. lower vk = lower (token_key pair)) VALID_KEYS = Some vk" "vk \<in> set VALID_KEYS"
        "lower vk = lower (token_key pair)" by blast
  show ?thesis using w vk
    by (intro exI[of _ vk]) (simp add: well_formed_token_def token_key_def VALID_KEYS_LOWER_def Let_def)
qed

lemma parse_overrides_loop_bad:
  "\<not> well_formed_token pair \<Longrightarrow>
   parse_overrides_loop (pair # pairs) ov =
     Inl (if CHR ''='' \<notin> set pair then InvalidSetArgument pair else InvalidKey (token_key pair))"
  by (simp add: well_formed_token_def token_key_def VALID_KEYS_LOWER_def Let_def)

lemma parse_overrides_loop_first_bad:
  "\<forall>p\<in>set good. well_formed_token p \<Longrightarrow> \<not> well_formed_token bad \<Longrightarrow>
   parse_overrides_loop (good @ bad # rest) ov =
     Inl (if CHR ''='' \<notin> set bad then InvalidSetArgument bad else InvalidKey (token_key bad))"
proof (induction good arbitrary: ov)
  case Nil
  then show ?case using parse_overrides_loop_bad[of bad rest ov] by simp
next
  case (Cons p good)
  from Cons.prems have "well_formed_token p" by simp
  from parse_overrides_loop_good[OF this, of "good @ bad # rest" ov] obtain vk where
    "parse_overrides_loop (p # good @ bad # rest) ov =
       parse_overrides_loop (good @ bad # rest)
         (dict_set ov vk (auto_cast (strip (tl (dropWhile (\<lambda>c. c \<noteq> CHR ''='') p)))))" by blast
  then show ?case using Cons.IH Cons.prems by simp
qed

lemma parse_overrides_loop_all_good:
  "\<forall>p\<in>set pairs. well_formed_token p \<Longrightarrow>
   \<exists>ov'. parse_overrides_loop pairs ov = Inr ov' \<and>
     (\<forall>k\<in>fst ` set ov'. k \<in> fst ` set ov \<or>
        (k \<in> set VALID_KEYS \<and> (\<exists>pair\<in>set pairs. lower k = lower (token_key pair)))) \<and>
     (\<forall>pair\<in>set pairs. \<exists>k\<in>fst ` set ov'. lower k = lower (token_key pair)) \<and>
     fst ` set ov \<subseteq> fst ` set ov'"
proof (induction pairs arbitrary: ov)
  case Nil
  then show ?case by simp
next
  case (Cons p pairs)
  from Cons.prems have "well_formed_token p" by simp
  from parse_overrides_loop_good[OF this, of pairs ov] obtain vk v where
    vk: "vk \<in> set VALID_KEYS" "lower vk = lower (token_key p)"
        "parse_overrides_loop (p # pairs) ov = parse_overrides_loop pairs (dict_set ov vk v)" by blast
  from Cons.IH[of "dict_set ov vk v"] Cons.prems obtain ov' where
    ov': "parse_overrides_loop pairs (dict_set ov vk v) = Inr ov'"
      "\<forall>k\<in>fst ` set ov'. k \<in> fst ` set (dict_set ov vk v) \<or>
        (k \<in> set VALID_KEYS \<and> (\<exists>pair\<in>set pairs. lower k = lower (token_key pair)))"
      "\<forall>pair\<in>set pairs. \<exists>k\<in>fst ` set ov'. lower k = lower (token_key pair)"
      "fst ` set (dict_set ov vk v) \<subseteq> fst ` set ov'" by auto
  have k: "fst ` set (dict_set ov vk v) = insert vk (fst ` set ov)" by (rule keys_dict_set)
  have 1: "\<forall>k\<in>fst ` set ov'. k \<in> fst ` set ov \<or>
        (k \<in> set VALID_KEYS \<and> (\<exists>pair\<in>set (p # pairs). lower k = lower (token_key pair)))"
    using ov'(2) vk(1,2) unfolding k by (metis insertE list.set_intros(1) list.set_intros(2))
  have 2: "\<forall>pair\<in>set (p # pairs). \<exists>k\<in>fst ` set ov'. lower k = lower (token_key pair)"
    using ov'(3,4) vk(2) unfolding k by (metis insert_subset set_ConsD)
  have 3: "fst ` set ov \<subseteq> fst ` set ov'" using ov'(4) unfolding k by blast
  show ?case using vk(3) ov'(1) 1 2 3 by simp
qed

text \<open>
  Claim C7. \<open>parse_overrides\<close> is all-or-nothing. It returns a mapping exactly when every
  token has a \<open>=\<close> and a key that is, up to case, one of Frame, FrameLevel, Anchor, X, Y,
  W, H. Otherwise it exits at the first offending token, naming the token when the
  \<open>=\<close> is missing and the key when the key is not allowed, and no mapping is returned.
  On success every key of the mapping is one of \<open>VALID_KEYS\<close> in its canonical casing
  and equals, up to case, the key of a token, and every token's key is represented.
\<close>
theorem parse_overrides_all_or_nothing:
  "((\<exists>overrides. parse_overrides pairs = Inr overrides) \<longleftrightarrow> (\<forall>pair\<in>set pairs. well_formed_token pair)) \<and>
   (\<forall>good bad rest.
      pairs = good @ bad # rest \<and> (\<forall>pair\<in>set good. well_formed_token pair) \<and> \<not> well_formed_token bad \<longrightarrow>
      parse_overrides pairs =
        Inl (if CHR ''='' \<notin> set bad then InvalidSetArgument bad else InvalidKey (token_key bad))) \<and>
   (\<forall>overrides. parse_overrides pairs = Inr overrides \<longrightarrow>
      (\<forall>key\<in>fst ` set overrides. key \<in> set VALID_KEYS \<and>
         (\<exists>pair\<in>set pairs. lower key = lower (token_key pair))) \<and>
      (\<forall>pair\<in>set pairs. \<exists>key\<in>fst ` set overrides. lower key = lower (token_key pair)))"
proof -
  have bad: "parse_overrides pairs =
        Inl (if CHR ''='' \<notin> set bad then InvalidSetArgument bad else InvalidKey (token_key bad))"
    if "pairs = good @ bad # rest" "\<forall>pair\<in>set good. well_formed_token pair" "\<not> well_formed_token bad"
    for good bad rest
    using that by (simp add: parse_overrides_def parse_overrides_loop_first_bad)
  have good: "\<exists>ov'. parse_overrides pairs = Inr ov' \<and>
      (\<forall>key\<in>fst ` set ov'. key \<in> set VALID_KEYS \<and> (\<exists>pair\<in>set pairs. lower key = lower (token_key pair))) \<and>
      (\<forall>pair\<in>set pairs. \<exists>key\<in>fst ` set ov'. lower key = lower (token_key pair))"
    if "\<forall>pair\<in>set pairs. well_formed_token pair"
    using parse_overrides_loop_all_good[OF that, of "[]"] by (auto simp: parse_overrides_def)
  have split: "\<exists>good bad rest. pairs = good @ bad # rest \<and> (\<forall>pair\<in>set good. well_formed_token pair) \<and>
      \<not> well_formed_token bad" if "\<not> (\<forall>pair\<in>set pairs. well_formed_token pair)"
  proof -
    from that have "\<exists>x\<in>set pairs. \<not> well_formed_token x" by simp
    from split_list_first_prop[OF this] obtain ys x zs where
      "pairs = ys @ x # zs" "\<not> well_formed_token x" "\<forall>y\<in>set ys. \<not> \<not> well_formed_token y" by blast
    then show ?thesis by auto
  qed
  have iff: "(\<exists>overrides. parse_overrides pairs = Inr overrides) \<longleftrightarrow> (\<forall>pair\<in>set pairs. well_formed_token pair)"
  proof
    assume r: "\<exists>overrides. parse_overrides pairs = Inr overrides"
    show "\<forall>pair\<in>set pairs. well_formed_token pair"
    proof (rule ccontr)
      assume "\<not> (\<forall>pair\<in>set pairs. well_formed_token pair)"
      from split[OF this] obtain g b rs where "pairs = g @ b # rs" "\<forall>pair\<in>set g. well_formed_token pair"
        "\<not> well_formed_token b" by blast
      from bad[OF this] r show False by auto
    qed
  next
    assume "\<forall>pair\<in>set pairs. well_formed_token pair"
    from good[OF this] show "\<exists>overrides. parse_overrides pairs = Inr overrides" by blast
  qed
  have keys: "(\<forall>key\<in>fst ` set overrides. key \<in> set VALID_KEYS \<and>
         (\<exists>pair\<in>set pairs. lower key = lower (token_key pair))) \<and>
      (\<forall>pair\<in>set pairs. \<exists>key\<in>fst ` set overrides. lower key = lower (token_key pair))"
    if "parse_overrides pairs = Inr overrides" for overrides
  proof -
    from that iff have "\<forall>pair\<in>set pairs. well_formed_token pair" by blast
    from good[OF this] that show ?thesis by auto
  qed
  show ?thesis using iff bad keys by blast
qed

theorem parse_overrides_all_or_nothing_witness:
  "parse_overrides [''frame=A'', ''z=1''] = Inl (InvalidKey ''z'') \<and>
   parse_overrides [''frame=A'', ''X''] = Inl (InvalidSetArgument ''X'') \<and>
   parse_overrides [''anchor=TL''] = Inr [(''Anchor'', Text ''TL'')] \<and>
   well_formed_token ''anchor=TL'' \<and> well_formed_token ''frame=A'' \<and> \<not> well_formed_token ''z=1''"
proof -
  have w: "well_formed_token ''anchor=TL''" "well_formed_token ''frame=A''" "\<not> well_formed_token ''z=1''"
    "\<not> well_formed_token ''X''" "token_key ''z=1'' = ''z''" 
    by code_simp+
  have 1: "parse_overrides [''frame=A'', ''z=1''] = Inl (InvalidKey ''z'')"
    using parse_overrides_all_or_nothing[of "[''frame=A'', ''z=1'']", THEN conjunct2, THEN conjunct1,
        rule_format, of "[''frame=A'']" "''z=1''" "[]"] w by simp
  have 2: "parse_overrides [''frame=A'', ''X''] = Inl (InvalidSetArgument ''X'')" by code_simp
  have 3: "parse_overrides [''anchor=TL''] = Inr [(''Anchor'', Text ''TL'')]" by code_simp
  show ?thesis using 1 2 3 w by simp
qed

section \<open>Trimming and the record parser\<close>

lemma strip_Nil [simp]: "strip [] = []"
  by (simp add: strip_def)

lemma strip_ends:
  assumes "strip s \<noteq> []"
  shows "\<not> is_space (hd (strip s))" and "\<not> is_space (last (strip s))"
proof -
  let ?t = "dropWhile is_space s"
  let ?u = "dropWhile is_space (rev ?t)"
  have u: "?u \<noteq> []" using assms by (simp add: strip_def)
  have t: "?t \<noteq> []"
  proof
    assume a: "?t = []"
    have "?u = []" unfolding a by simp
    with u show False by blast
  qed
  have "\<not> is_space (hd ?u)" using u by (rule hd_dropWhile)
  then show "\<not> is_space (last (strip s))" using u by (simp add: strip_def last_rev)
  have "\<not> is_space (hd ?t)" using t by (rule hd_dropWhile)
  moreover have "last ?u = last (rev ?t)"
    using u by (metis last_appendR takeWhile_dropWhile_id)
  ultimately show "\<not> is_space (hd (strip s))" using u t by (simp add: strip_def hd_rev last_rev)
qed

lemma strip_id:
  assumes "s \<noteq> []" "\<not> is_space (hd s)" "\<not> is_space (last s)"
  shows "strip s = s"
proof -
  have "dropWhile is_space s = s" using assms(1,2) by (cases s) auto
  moreover have "dropWhile is_space (rev s) = rev s"
    using assms(1,3) by (cases "rev s") (auto simp: last_rev[symmetric] hd_rev)
  ultimately show ?thesis by (simp add: strip_def)
qed

lemma strip_strip [simp]: "strip (strip s) = strip s"
proof (cases "strip s = []")
  case True then show ?thesis by simp
next
  case False
  then show ?thesis using strip_ends[OF False] by (intro strip_id)
qed

lemma parse_block_alt: "parse_block lines index = foldl (block_step lines index) [] [0..<7]"
  unfolding parse_block_def block_step_def ..

lemma parse_kv_line_key:
  "parse_kv_line line = Some (key, value) \<Longrightarrow> strip key = key"
  by (auto simp: parse_kv_line_def Let_def split: if_splits)

lemma good_keys_dict_set:
  "good_keys fd \<Longrightarrow> key \<noteq> [] \<Longrightarrow> strip key = key \<Longrightarrow> good_keys (dict_set fd key value)"
  unfolding good_keys_def keys_dict_set by blast

lemma good_keys_step: "good_keys fd \<Longrightarrow> good_keys (block_step lines index fd offset)"
  by (auto simp: block_step_def intro!: good_keys_dict_set dest: parse_kv_line_key split: option.splits)

lemma good_keys_foldl: "good_keys fd \<Longrightarrow> good_keys (foldl (block_step lines index) fd offs)"
  by (induction offs arbitrary: fd) (auto simp: good_keys_step)

lemma good_keys_parse_block: "good_keys (parse_block lines index)"
  unfolding parse_block_alt by (rule good_keys_foldl) (simp add: good_keys_def)

lemma get_frames_loop_eq:
  "get_frames_loop lines index frames =
     frames @ map (\<lambda>k. parse_block lines (index + 7 * k)) [0..<(length lines - index) div 7]"
proof (induction lines index frames rule: get_frames_loop.induct)
  case (1 lines index frames)
  show ?case
  proof (cases "index + 6 < length lines")
    case True
    define n where "n = (length lines - (index + 7)) div 7"
    have "7 \<le> length lines - index" using True by simp
    then have "(length lines - index) div 7 = Suc ((length lines - index - 7) div 7)"
      by (simp add: le_div_geq)
    then have n: "(length lines - index) div 7 = Suc n" "(length lines - (index + 7)) div 7 = n"
      by (simp_all add: n_def)
    have "map (\<lambda>k. parse_block lines (index + 7 * k)) [0..<Suc n] =
          parse_block lines index # map (\<lambda>k. parse_block lines (index + 7 + 7 * k)) [0..<n]"
      by (simp add: map_upt_Suc del: upt_Suc) (simp add: add.assoc)
    then show ?thesis using 1[OF True] True n by (subst get_frames_loop.simps) simp
  next
    case False
    then have "(length lines - index) div 7 = 0" by simp
    then show ?thesis using False by (subst get_frames_loop.simps) simp
  qed
qed

lemma block_step_cong:
  "lines ! (index + offset) = lines' ! (index' + offset) \<Longrightarrow>
   block_step lines index fd offset = block_step lines' index' fd offset"
  by (simp add: block_step_def)

lemma foldl_block_cong:
  "(\<And>offset. offset \<in> set offs \<Longrightarrow> block_step lines index = (\<lambda>fd. block_step lines' index' fd) \<or> True) \<Longrightarrow>
   (\<And>offset fd. offset \<in> set offs \<Longrightarrow> block_step lines index fd offset = block_step lines' index' fd offset) \<Longrightarrow>
   foldl (block_step lines index) fd offs = foldl (block_step lines' index') fd offs"
  by (induction offs arbitrary: fd) auto

lemma parse_block_window:
  assumes "index + 7 \<le> length lines"
  shows "parse_block lines index = parse_block (take 7 (drop index lines)) 0"
  unfolding parse_block_alt
proof (rule foldl_block_cong)
  fix offset fd assume "offset \<in> set [0..<7]"
  then have "offset < 7" by simp
  then have "lines ! (index + offset) = take 7 (drop index lines) ! (0 + offset)"
    using assms by simp
  then show "block_step lines index fd offset = block_step (take 7 (drop index lines)) 0 fd offset"
    by (rule block_step_cong)
qed simp

text \<open>
  Claim C2, as stated, fails on its example: for a header, one full record of seven lines
  and eight further non-empty lines, the loop condition \<open>index + 6 < len(lines)\<close> still
  holds at \<open>index = 8\<close> (14 < 16), so a second frame is produced from seven of the
  eight lines.
\<close>
theorem get_frames_two_frames_from_fifteen_lines:
  "get_frames ''v1\<newline>Frame: A\<newline>X: 1\<newline>Y: 2\<newline>W: 10\<newline>H: 20\<newline>Anchor: TL\<newline>FrameLevel: 0\<newline>Frame: B\<newline>X: 3\<newline>Y: 4\<newline>W: 30\<newline>H: 40\<newline>Anchor: BR\<newline>FrameLevel: 1\<newline>Frame: C'' =
   ([[(''Frame'', Text ''A''), (''X'', Integer 1), (''Y'', Integer 2), (''W'', Integer 10),
      (''H'', Integer 20), (''Anchor'', Text ''TL''), (''FrameLevel'', Integer 0)],
     [(''Frame'', Text ''B''), (''X'', Integer 3), (''Y'', Integer 4), (''W'', Integer 30),
      (''H'', Integer 40), (''Anchor'', Text ''BR''), (''FrameLevel'', Integer 1)]],
    ''v1'')"
  by code_simp

lemma get_frames_by_groups:
  assumes "read_lines text = version_header # rest"
  shows "get_frames text =
    (map (\<lambda>k. parse_block (take 7 (drop (7 * k) rest)) 0) [0..<length rest div 7], version_header)"
proof -
  let ?lines = "version_header # rest"
  have "parse_block ?lines (1 + 7 * k) = parse_block (take 7 (drop (7 * k) rest)) 0"
    if "k < length rest div 7" for k
  proof -
    have "7 * k + 7 \<le> length rest" using that by arith
    then have "1 + 7 * k + 7 \<le> length ?lines" by simp
    from parse_block_window[OF this] show ?thesis by simp
  qed
  then have "map (\<lambda>k. parse_block ?lines (1 + 7 * k)) [0..<length rest div 7] =
        map (\<lambda>k. parse_block (take 7 (drop (7 * k) rest)) 0) [0..<length rest div 7]"
    by simp
  then show ?thesis using assms by (simp add: get_frames_def get_frames_loop_eq)
qed

text \<open>
  Claim C2, amended. After the header the lines are consumed in groups of exactly seven:
  frame \<open>k\<close> is built from the lines \<open>7k .. 7k+6\<close> after the header, there are as many
  frames as there are full groups, and the lines after the last full group (fewer than
  seven) are discarded without error. With a header, one full record and eight further
  lines, seven of the eight form a second frame and the eighth is dropped.
\<close>
theorem get_frames_groups_of_seven:
  assumes "read_lines text = version_header # rest"
  shows "get_frames text =
    (map (\<lambda>k. parse_block (take 7 (drop (7 * k) rest)) 0) [0..<length rest div 7], version_header)"
  using assms by (rule get_frames_by_groups)

theorem get_frames_groups_of_seven_witness:
  "get_frames ''v1\<newline>Frame: A\<newline>X: 1\<newline>Y: 2\<newline>W: 10\<newline>H: 20\<newline>Anchor: TL\<newline>FrameLevel: 0\<newline>Frame: B'' =
   ([[(''Frame'', Text ''A''), (''X'', Integer 1), (''Y'', Integer 2), (''W'', Integer 10),
      (''H'', Integer 20), (''Anchor'', Text ''TL''), (''FrameLevel'', Integer 0)]], ''v1'')"
proof -
  have r: "read_lines ''v1\<newline>Frame: A\<newline>X: 1\<newline>Y: 2\<newline>W: 10\<newline>H: 20\<newline>Anchor: TL\<newline>FrameLevel: 0\<newline>Frame: B'' =
      ''v1'' # [''Frame: A'', ''X: 1'', ''Y: 2'', ''W: 10'', ''H: 20'', ''Anchor: TL'', ''FrameLevel: 0'', ''Frame: B'']"
    by code_simp
  have e: "map (\<lambda>k. parse_block (take 7 (drop (7 * k)
        [''Frame: A'', ''X: 1'', ''Y: 2'', ''W: 10'', ''H: 20'', ''Anchor: TL'', ''FrameLevel: 0'', ''Frame: B''])) 0)
        [0..<length [''Frame: A'', ''X: 1'', ''Y: 2'', ''W: 10'', ''H: 20'', ''Anchor: TL'', ''FrameLevel: 0'', ''Frame: B''] div 7] =
     [[(''Frame'', Text ''A''), (''X'', Integer 1), (''Y'', Integer 2), (''W'', Integer 10),
      (''H'', Integer 20), (''Anchor'', Text ''TL''), (''FrameLevel'', Integer 0)]]"
    by code_simp
  show ?thesis unfolding get_frames_groups_of_seven[OF r] e ..
qed

lemma good_keys_get_frames: "frame \<in> set (fst (get_frames text)) \<Longrightarrow> good_keys frame"
  by (auto simp: get_frames_def get_frames_loop_eq good_keys_parse_block Let_def split: list.splits)

lemma parse_block_skip:
  assumes "offset < 7" and "CHR '':'' \<in> set (lines ! (index + offset))"
    and "strip (takeWhile (\<lambda>c. c \<noteq> CHR '':'') (lines ! (index + offset))) = []"
    and "CHR '':'' \<notin> set other"
  shows "parse_block (lines[index + offset := other]) index = parse_block lines index"
  unfolding parse_block_alt
proof (rule foldl_block_cong)
  fix o' fd assume "o' \<in> set [0..<7]"
  show "block_step (lines[index + offset := other]) index fd o' = block_step lines index fd o'"
  proof (cases "o' = offset \<and> index + offset < length lines")
    case True
    then have "lines[index + offset := other] ! (index + o') = other" by simp
    then have "block_step (lines[index + offset := other]) index fd o' = fd"
      using assms(4) by (simp add: block_step_def parse_kv_line_def)
    moreover have "block_step lines index fd o' = fd"
      using True assms(2,3) by (simp add: block_step_def parse_kv_line_def Let_def)
    ultimately show ?thesis by simp
  next
    case False
    then have "lines[index + offset := other] ! (index + o') = lines ! (index + o')"
      by (cases "o' = offset") (auto simp: list_update_beyond)
    then show ?thesis by (rule block_step_cong)
  qed
qed simp

text \<open>
  Claim C10. Every key stored in a parsed frame is a non-empty trimmed string; a line
  that has a \<open>:\<close> but an empty or blank key part contributes nothing to its block:
  replacing it by any line without a colon leaves the parsed block the same.
\<close>
theorem parsed_keys_nonempty_trimmed:
  "(\<forall>frame\<in>set (fst (get_frames text)). \<forall>key\<in>fst ` set frame. key \<noteq> [] \<and> strip key = key) \<and>
   (\<forall>lines index offset other.
      offset < 7 \<and> CHR '':'' \<in> set (lines ! (index + offset)) \<and>
      strip (takeWhile (\<lambda>c. c \<noteq> CHR '':'') (lines ! (index + offset))) = [] \<and>
      CHR '':'' \<notin> set other \<longrightarrow>
      parse_block (lines[index + offset := other]) index = parse_block lines index)"
  using good_keys_get_frames[of _ "text"] parse_block_skip unfolding good_keys_def by blast

theorem parsed_keys_nonempty_trimmed_witness:
  "fst (get_frames ''v1\<newline>Frame: A\<newline>X: 1\<newline>Y: 2\<newline>: 5\<newline>H: 20\<newline>Anchor: TL\<newline>FrameLevel: 0'') =
     [[(''Frame'', Text ''A''), (''X'', Integer 1), (''Y'', Integer 2),
       (''H'', Integer 20), (''Anchor'', Text ''TL''), (''FrameLevel'', Integer 0)]] \<and>
   list_all (\<lambda>key. key \<noteq> [] \<and> strip key = key) [''Frame'', ''X'', ''Y'', ''H'', ''Anchor'', ''FrameLevel''] \<and>
   parse_block [''v1'', ''Frame: A'', ''X: 1'', ''Y: 2'', ''no colon'', ''H: 20'', ''Anchor: TL'', ''FrameLevel: 0''] 1 =
   parse_block [''v1'', ''Frame: A'', ''X: 1'', ''Y: 2'', '': 5'', ''H: 20'', ''Anchor: TL'', ''FrameLevel: 0''] 1"
proof -
  let ?T = "''v1\<newline>Frame: A\<newline>X: 1\<newline>Y: 2\<newline>: 5\<newline>H: 20\<newline>Anchor: TL\<newline>FrameLevel: 0''"
  let ?F = "[(''Frame'', Text ''A''), (''X'', Integer 1), (''Y'', Integer 2),
       (''H'', Integer 20), (''Anchor'', Text ''TL''), (''FrameLevel'', Integer 0)]"
  have g: "fst (get_frames ?T) = [?F]" by code_simp
  have "\<forall>key\<in>fst ` set ?F. key \<noteq> [] \<and> strip key = key"
    using parsed_keys_nonempty_trimmed[of ?T, THEN conjunct1] unfolding g by simp
  then have k: "list_all (\<lambda>key. key \<noteq> [] \<and> strip key = key) [''Frame'', ''X'', ''Y'', ''H'', ''Anchor'', ''FrameLevel'']"
    by simp
  have s: "strip (takeWhile (\<lambda>c. c \<noteq> CHR '':'') '': 5'') = []" by code_simp
  have "parse_block ([''v1'', ''Frame: A'', ''X: 1'', ''Y: 2'', '': 5'', ''H: 20'', ''Anchor: TL'', ''FrameLevel: 0''][1 + 3 := ''no colon'']) 1 =
   parse_block [''v1'', ''Frame: A'', ''X: 1'', ''Y: 2'', '': 5'', ''H: 20'', ''Anchor: TL'', ''FrameLevel: 0''] 1"
    by (rule parsed_keys_nonempty_trimmed[of ?T, THEN conjunct2, rule_format]) (simp add: s)
  then show ?thesis using g k by simp
qed

section \<open>The effect of one override on the serialised document\<close>

lemma frame_lines_alt: "frame_lines frame = frame_head frame # map (field_line frame) (sorted_keys frame)"
  by (simp add: frame_lines_def field_line_def sorted_keys_def frame_head_def)

lemma sorted_keys_props:
  "sorted (sorted_keys frame)" "set (sorted_keys frame) = fst ` set frame - {''Frame''}"
  "distinct (map fst frame) \<Longrightarrow> distinct (sorted_keys frame)"
  by (auto simp: sorted_keys_def distinct_map_filter)

lemma map_fst_dict_set_present: "k \<in> fst ` set d \<Longrightarrow> map fst (dict_set d k v) = map fst d"
  by (induction d) force+


lemma insort_split: "\<exists>ys zs. xs = ys @ zs \<and> insort x xs = ys @ x # zs"
proof (induction xs)
  case Nil then show ?case by simp
next
  case (Cons a xs)
  show ?case
  proof (cases "x \<le> a")
    case True
    then show ?thesis by (intro exI[of _ "[]"] exI[of _ "a # xs"]) simp
  next
    case False
    from Cons obtain ys zs where "xs = ys @ zs" "insort x xs = ys @ x # zs" by blast
    with False show ?thesis by (intro exI[of _ "a # ys"] exI[of _ zs]) simp
  qed
qed

lemma sorted_keys_dict_set:
  assumes "distinct (map fst frame)" and "key \<noteq> ''Frame''"
  shows "\<exists>ks1 ks2. sorted_keys (dict_set frame key value) = ks1 @ key # ks2 \<and>
           sorted_keys frame = ks1 @ (if key \<in> fst ` set frame then [key] else []) @ ks2 \<and>
           key \<notin> set ks1 \<and> key \<notin> set ks2"
proof (cases "key \<in> fst ` set frame")
  case True
  then have same: "sorted_keys (dict_set frame key value) = sorted_keys frame"
    by (simp add: sorted_keys_def map_fst_dict_set_present)
  have "key \<in> set (sorted_keys frame)" using True assms(2) by (simp add: sorted_keys_props)
  then obtain ks1 ks2 where s: "sorted_keys frame = ks1 @ key # ks2" by (meson split_list)
  have "distinct (sorted_keys frame)" using assms(1) by (rule sorted_keys_props)
  then have "key \<notin> set ks1" "key \<notin> set ks2" unfolding s by auto
  then show ?thesis using True same s by auto
next
  case False
  let ?ks = "sorted_keys frame" and ?ks' = "sorted_keys (dict_set frame key value)"
  have d: "distinct (map fst (dict_set frame key value))" using assms(1) by (rule distinct_dict_set)
  have notin: "key \<notin> set ?ks" using False by (simp add: sorted_keys_props)
  have "sorted ?ks'" "distinct ?ks'" "set ?ks' = insert key (set ?ks)"
    using d assms(2) by (auto simp: sorted_keys_props keys_dict_set)
  moreover have "sorted (insort key ?ks)" "distinct (insort key ?ks)" "set (insort key ?ks) = insert key (set ?ks)"
    using notin assms(1) by (auto simp: sorted_keys_props sorted_insort distinct_insort set_insort_key)
  ultimately have "?ks' = insort key ?ks" by (metis sorted_distinct_set_unique)
  moreover obtain ys zs where "?ks = ys @ zs" "insort key ?ks = ys @ key # zs"
    using insort_split by blast
  ultimately show ?thesis using False notin by auto
qed

lemma field_line_dict_set_other:
  "k \<noteq> key \<Longrightarrow> field_line (dict_set frame key value) k = field_line frame k"
  by (simp add: field_line_def map_of_dict_set)

lemma field_line_dict_set_same:
  "field_line (dict_set frame key value) key = key @ '': '' @ py_str value"
  by (simp add: field_line_def map_of_dict_set)

lemma frame_lines_dict_set:
  assumes "distinct (map fst frame)" and "key \<noteq> ''Frame''"
  shows "\<exists>a b. frame_lines frame =
            a @ (case map_of frame key of None \<Rightarrow> [] | Some v \<Rightarrow> [key @ '': '' @ py_str v]) @ b \<and>
          frame_lines (dict_set frame key value) = a @ [key @ '': '' @ py_str value] @ b"
proof -
  from sorted_keys_dict_set[OF assms, of "value"] obtain ks1 ks2 where
    k: "sorted_keys (dict_set frame key value) = ks1 @ key # ks2"
       "sorted_keys frame = ks1 @ (if key \<in> fst ` set frame then [key] else []) @ ks2"
       "key \<notin> set ks1" "key \<notin> set ks2" by blast
  let ?a = "frame_head frame # map (field_line frame) ks1" and ?b = "map (field_line frame) ks2"
  have h: "frame_head (dict_set frame key value) = frame_head frame"
    using assms(2) by (simp add: frame_head_def map_of_dict_set)
  have m1: "map (field_line (dict_set frame key value)) ks1 = map (field_line frame) ks1"
  proof (rule map_cong[OF refl])
    fix x assume "x \<in> set ks1"
    with k(3) have "x \<noteq> key" by blast
    then show "field_line (dict_set frame key value) x = field_line frame x"
      by (rule field_line_dict_set_other)
  qed
  have m2: "map (field_line (dict_set frame key value)) ks2 = map (field_line frame) ks2"
  proof (rule map_cong[OF refl])
    fix x assume "x \<in> set ks2"
    with k(4) have "x \<noteq> key" by blast
    then show "field_line (dict_set frame key value) x = field_line frame x"
      by (rule field_line_dict_set_other)
  qed
  have new: "frame_lines (dict_set frame key value) = ?a @ [key @ '': '' @ py_str value] @ ?b"
    by (simp add: frame_lines_alt k(1) h m1 m2 field_line_dict_set_same)
  have old: "frame_lines frame =
       ?a @ (case map_of frame key of None \<Rightarrow> [] | Some v \<Rightarrow> [key @ '': '' @ py_str v]) @ ?b"
  proof (cases "map_of frame key")
    case None
    then have "key \<notin> fst ` set frame" by (simp add: map_of_eq_None_iff)
    then show ?thesis using None by (simp add: frame_lines_alt k(2))
  next
    case (Some v)
    then have "key \<in> fst ` set frame" by (metis map_of_eq_None_iff option.distinct(1))
    then show ?thesis using Some by (simp add: frame_lines_alt k(2) field_line_def)
  qed
  from old new show ?thesis by blast
qed

text \<open>
  Claim C6. In a document whose first frame named \<open>A\<close> is \<open>frame\<close>, applying the
  overrides \<open>{Frame: "A", X: 99}\<close> returns normally and replaces that one frame by
  \<open>frame\<close> with \<open>X\<close> set to 99: the frames before and after it are the same, every
  other field of the frame, its \<open>Frame\<close> value included, keeps its value, and the
  serialised document differs in one line only, the line \<open>X: 99\<close>, which takes the place
  of the former \<open>X\<close> line (or is added where the frame had no \<open>X\<close>); the header is
  not touched.
\<close>
theorem apply_overrides_changes_one_field:
  assumes "frames = pre @ frame # post"
    and "\<forall>g\<in>set pre. \<not> frame_matches g (Text ''A'')"
    and "map_of frame ''Frame'' = Some (Text ''A'')"
    and "distinct (map fst frame)"
  shows "apply_overrides frames [(''Frame'', Text ''A''), (''X'', Integer 99)] =
           (None, pre @ dict_set frame ''X'' (Integer 99) # post) \<and>
         map_of (dict_set frame ''X'' (Integer 99)) = (map_of frame)(''X'' \<mapsto> Integer 99) \<and>
         map_of (dict_set frame ''X'' (Integer 99)) ''Frame'' = Some (Text ''A'') \<and>
         (\<exists>a b. serialize_frames frames version_header =
                   join_lines (a @ (case map_of frame ''X'' of None \<Rightarrow> [] | Some v \<Rightarrow> [''X: '' @ py_str v]) @ b) \<and>
                 serialize_frames (pre @ dict_set frame ''X'' (Integer 99) # post) version_header =
                   join_lines (a @ [''X: 99''] @ b))"
proof -
  let ?ov = "[(''Frame'', Text ''A''), (''X'', Integer 99)]"
  have m: "frame_matches frame (Text ''A'')" using assms(3) by (simp add: frame_matches_def)
  have mg: "merge_overrides frame ?ov = dict_set frame ''X'' (Integer 99)"
    by (simp add: merge_overrides_def)
  have 1: "apply_overrides frames ?ov = (None, pre @ dict_set frame ''X'' (Integer 99) # post)"
    using apply_loop_found[OF assms(2) m, of post ?ov] assms(1) mg
    by (simp add: apply_overrides_def)
  have 2: "map_of (dict_set frame ''X'' (Integer 99)) = (map_of frame)(''X'' \<mapsto> Integer 99)"
    by (rule map_of_dict_set)
  have 3: "map_of (dict_set frame ''X'' (Integer 99)) ''Frame'' = Some (Text ''A'')"
    using assms(3) by (simp add: map_of_dict_set)
  have s99: "py_str (Integer 99) = ''99''" by code_simp
  from frame_lines_dict_set[OF assms(4), of "''X''" "Integer 99"] obtain a b where
    raw: "frame_lines frame = a @ (case map_of frame ''X'' of None \<Rightarrow> [] | Some v \<Rightarrow> [''X'' @ '': '' @ py_str v]) @ b"
         "frame_lines (dict_set frame ''X'' (Integer 99)) = a @ [''X'' @ '': '' @ py_str (Integer 99)] @ b"
    by blast
  have ab: "frame_lines frame = a @ (case map_of frame ''X'' of None \<Rightarrow> [] | Some v \<Rightarrow> [''X: '' @ py_str v]) @ b"
        "frame_lines (dict_set frame ''X'' (Integer 99)) = a @ [''X: 99''] @ b"
    using raw unfolding s99 by (simp_all split: option.splits)
  let ?a = "version_header # concat (map frame_lines pre) @ a" and ?b = "b @ concat (map frame_lines post)"
  have "serialize_frames frames version_header =
          join_lines (?a @ (case map_of frame ''X'' of None \<Rightarrow> [] | Some v \<Rightarrow> [''X: '' @ py_str v]) @ ?b)"
    unfolding serialize_frames_def serialize_lines_def assms(1) using ab(1) by simp
  moreover have "serialize_frames (pre @ dict_set frame ''X'' (Integer 99) # post) version_header =
          join_lines (?a @ [''X: 99''] @ ?b)"
    unfolding serialize_frames_def serialize_lines_def using ab(2) by simp
  ultimately have 4: "\<exists>a b. serialize_frames frames version_header =
                   join_lines (a @ (case map_of frame ''X'' of None \<Rightarrow> [] | Some v \<Rightarrow> [''X: '' @ py_str v]) @ b) \<and>
                 serialize_frames (pre @ dict_set frame ''X'' (Integer 99) # post) version_header =
                   join_lines (a @ [''X: 99''] @ b)" by blast
  from 1 2 3 4 show ?thesis by blast
qed

theorem apply_overrides_changes_one_field_witness:
  "apply_overrides
     [[(''Frame'', Text ''B''), (''X'', Integer 7)],
      [(''Frame'', Text ''A''), (''X'', Integer 1), (''Y'', Integer 2), (''W'', Integer 10),
       (''H'', Integer 20), (''Anchor'', Text ''TL''), (''FrameLevel'', Integer 0)]]
     [(''Frame'', Text ''A''), (''X'', Integer 99)] =
   (None,
     [[(''Frame'', Text ''B''), (''X'', Integer 7)],
      [(''Frame'', Text ''A''), (''X'', Integer 99), (''Y'', Integer 2), (''W'', Integer 10),
       (''H'', Integer 20), (''Anchor'', Text ''TL''), (''FrameLevel'', Integer 0)]])"
proof -
  let ?B = "[(''Frame'', Text ''B''), (''X'', Integer 7)]"
  let ?A = "[(''Frame'', Text ''A''), (''X'', Integer 1), (''Y'', Integer 2), (''W'', Integer 10),
       (''H'', Integer 20), (''Anchor'', Text ''TL''), (''FrameLevel'', Integer 0)]"
  have 1: "[?B, ?A] = [?B] @ ?A # []" by simp
  have 2: "\<forall>g\<in>set [?B]. \<not> frame_matches g (Text ''A'')" by (simp add: frame_matches_def)
  have 3: "map_of ?A ''Frame'' = Some (Text ''A'')" by simp
  have 4: "distinct (map fst ?A)" by simp
  from apply_overrides_changes_one_field[OF 1 2 3 4, THEN conjunct1] show ?thesis by simp
qed

section \<open>Value coercion\<close>






section \<open>Lines and trimming\<close>

subsection \<open>Lines\<close>






subsection \<open>Strip\<close>














section \<open>Printing and reading numbers\<close>

subsection \<open>Digits\<close>












subsection \<open>Characters of printed numbers\<close>










subsection \<open>Integers\<close>





subsection \<open>Normalised decimals\<close>







subsection \<open>Runs of digits\<close>






subsection \<open>The exponent\<close>




subsection \<open>Reading a decimal\<close>

















section \<open>Value coercion, as claimed\<close>





section \<open>The round trip\<close>

subsection \<open>What the parser stores\<close>










subsection \<open>The block a frame is written as, read back\<close>






















end
